theory Spec2Isabelle
  imports Main "HOL-Library.Sublist"
begin

section \<open>The async fixer: a shallow embedding of \<open>fix-async.py\<close>\<close>

text \<open>
  The program reads a Rust source text, looks for function signatures line by line
  with a regular expression, takes the lines up to the closing brace as the function's
  span and, when the span's body mentions \<^verbatim>\<open>.await\<close>, writes \<^verbatim>\<open>async\<close> in
  front of \<^verbatim>\<open>fn\<close>.

  A Python \<^verbatim>\<open>str\<close> is a sequence of code points. The model takes \<^typ>\<open>string\<close>: a
  \<^typ>\<open>char\<close> stands for a code point from 0 to 255, and the classes \<^verbatim>\<open>\s\<close> and
  \<^verbatim>\<open>\w\<close> are Python's Unicode classes on that range.
\<close>

subsection \<open>Python's string and list primitives\<close>

datatype error = IndexError

text \<open>\<^verbatim>\<open>xs[i]\<close> for an index that is never negative.\<close>

definition py_getitem :: "'a list \<Rightarrow> nat \<Rightarrow> error + 'a" where
  "py_getitem xs i = (if i < length xs then Inr (xs ! i) else Inl IndexError)"

text \<open>\<^verbatim>\<open>xs[i] = v\<close>.\<close>

definition py_setitem :: "'a list \<Rightarrow> nat \<Rightarrow> 'a \<Rightarrow> error + 'a list" where
  "py_setitem xs i v = (if i < length xs then Inr (xs[i := v]) else Inl IndexError)"

text \<open>\<^verbatim>\<open>content.split('\n')\<close>: one more piece than there are newlines.\<close>

fun py_split :: "string \<Rightarrow> string list" where
  "py_split [] = [[]]"
| "py_split (c # cs) =
     (if c = CHR 0x0A then [] # py_split cs
      else (case py_split cs of [] \<Rightarrow> [[c]] | l # ls \<Rightarrow> (c # l) # ls))"

text \<open>\<^verbatim>\<open>'\n'.join(result)\<close>.\<close>

fun py_join :: "string list \<Rightarrow> string" where
  "py_join [] = []"
| "py_join [l] = l"
| "py_join (l # l' # ls) = l @ CHR 0x0A # py_join (l' # ls)"

text \<open>\<^verbatim>\<open>sub in s\<close>: \<open>sub\<close> occurs in \<open>s\<close> as a contiguous substring.\<close>

fun py_in :: "string \<Rightarrow> string \<Rightarrow> bool" where
  "py_in sub [] = (sub = [])"
| "py_in sub (c # cs) = (prefix sub (c # cs) \<or> py_in sub cs)"

text \<open>\<^verbatim>\<open>s.count(c)\<close> for a one-character \<open>c\<close>.\<close>

definition py_count :: "string \<Rightarrow> char \<Rightarrow> nat" where
  "py_count s c = length (filter (\<lambda>x. x = c) s)"

text \<open>\<^verbatim>\<open>s.replace(old, new, 1)\<close>: the first occurrence of \<open>old\<close> only.\<close>

fun py_replace1 :: "string \<Rightarrow> string \<Rightarrow> string \<Rightarrow> string" where
  "py_replace1 old new [] = (if old = [] then new else [])"
| "py_replace1 old new (c # cs) =
     (if prefix old (c # cs) then new @ drop (length old) (c # cs)
      else c # py_replace1 old new cs)"

subsection \<open>The regular expressions that \<open>fn_pattern\<close> is made of\<close>

text \<open>
  \<open>fn_pattern\<close> repeats single characters of a class only, and its groups are
  sequences without alternatives. A group that captures and one that does not
  (\<^verbatim>\<open>(?:...)\<close>) match the same texts; the program reads the captured groups into
  \<open>indent\<close>, \<open>pub\<close> and \<open>signature\<close> and never uses them.
\<close>

datatype regex =
    RLit string                  \<comment> \<open>the characters themselves\<close>
  | RStar "char \<Rightarrow> bool"         \<comment> \<open>\<^verbatim>\<open>c*\<close> for a character class\<close>
  | RPlus "char \<Rightarrow> bool"         \<comment> \<open>\<^verbatim>\<open>c+\<close>\<close>
  | ROpt "regex list"            \<comment> \<open>\<^verbatim>\<open>(...)?\<close> around a sequence\<close>

text \<open>\<^verbatim>\<open>\s\<close> on a \<^verbatim>\<open>str\<close>: the characters for which \<^verbatim>\<open>str.isspace\<close> holds.\<close>

definition is_space :: "char \<Rightarrow> bool" where
  "is_space c =
     (let n = (of_char c :: nat)
      in (9 \<le> n \<and> n \<le> 13) \<or> (28 \<le> n \<and> n \<le> 32) \<or> n = 133 \<or> n = 160)"

text \<open>\<^verbatim>\<open>\w\<close> on a \<^verbatim>\<open>str\<close>: the underscore and the alphanumeric characters.\<close>

definition is_word :: "char \<Rightarrow> bool" where
  "is_word c =
     (let n = (of_char c :: nat)
      in (48 \<le> n \<and> n \<le> 57) \<or> (65 \<le> n \<and> n \<le> 90) \<or> n = 95 \<or> (97 \<le> n \<and> n \<le> 122)
         \<or> n = 170 \<or> n = 178 \<or> n = 179 \<or> n = 181 \<or> n = 185 \<or> n = 186
         \<or> (188 \<le> n \<and> n \<le> 190) \<or> (192 \<le> n \<and> n \<le> 214) \<or> (216 \<le> n \<and> n \<le> 246)
         \<or> 248 \<le> n)"

text \<open>
  The texts that remain after a repeated class has matched at the start of \<open>s\<close>, the
  longest match first, as a backtracking matcher tries them.
\<close>

fun star_rests :: "(char \<Rightarrow> bool) \<Rightarrow> string \<Rightarrow> string list" where
  "star_rests p [] = [[]]"
| "star_rests p (c # cs) = (if p c then star_rests p cs else []) @ [c # cs]"

text \<open>
  \<open>rx_item r s\<close> lists what can remain of \<open>s\<close> after \<open>r\<close> has matched at its start,
  \<open>rx_seq\<close> does so for a sequence, in the order in which Python's matcher tries the
  alternatives. None of the constructs of \<open>fn_pattern\<close> cuts backtracking off, so
  \<^verbatim>\<open>re.match\<close> finds a match exactly when the list is not empty.
\<close>

fun rx_item :: "regex \<Rightarrow> string \<Rightarrow> string list"
  and rx_seq :: "regex list \<Rightarrow> string \<Rightarrow> string list" where
  "rx_item (RLit w) s = (if prefix w s then [drop (length w) s] else [])"
| "rx_item (RStar p) s = star_rests p s"
| "rx_item (RPlus p) s = (case s of [] \<Rightarrow> [] | c # cs \<Rightarrow> if p c then star_rests p cs else [])"
| "rx_item (ROpt rs) s = rx_seq rs s @ [s]"
| "rx_seq [] s = [s]"
| "rx_seq (r # rs) s = concat (map (rx_seq rs) (rx_item r s))"

text \<open>\<^verbatim>\<open>re.match(pattern, line)\<close> as a truth value: a match object or \<^verbatim>\<open>None\<close>.\<close>

definition re_match :: "regex list \<Rightarrow> string \<Rightarrow> bool" where
  "re_match pattern line = (rx_seq pattern line \<noteq> [])"

text \<open>
  \<^verbatim>\<open>(\s*)(pub\s+)?(fn\s+\w+(?:<[^>]+>)?(?:\([^)]*\))(?:\s*->\s*[^{]+)?)\s*\{\<close>
\<close>

definition fn_pattern :: "regex list" where
  "fn_pattern =
     [RStar is_space,
      ROpt [RLit ''pub'', RPlus is_space],
      RLit ''fn'', RPlus is_space, RPlus is_word,
      ROpt [RLit ''<'', RPlus (\<lambda>c. c \<noteq> CHR ''>''), RLit ''>''],
      RLit ''('', RStar (\<lambda>c. c \<noteq> CHR '')''), RLit '')'',
      ROpt [RStar is_space, RLit ''->'', RStar is_space, RPlus (\<lambda>c. c \<noteq> CHR ''{'')],
      RStar is_space,
      RLit ''{'']"

subsection \<open>The rewriter\<close>

text \<open>
  The inner loop of \<open>fix_async_functions\<close>:
  \<^verbatim>\<open>
  while j < len(lines) and brace_count > 0:
      fn_lines.append(lines[j])
      fn_body += lines[j] + "\n"
      brace_count += lines[j].count('{') - lines[j].count('}')
      j += 1
  \<close>
  It returns the variables that the code reads afterwards: \<open>j\<close>, \<open>fn_lines\<close> and
  \<open>fn_body\<close>. \<open>brace_count\<close> is a Python integer and can fall below zero.
\<close>

function scan_span ::
  "string list \<Rightarrow> nat \<Rightarrow> int \<Rightarrow> string list \<Rightarrow> string \<Rightarrow> error + (nat \<times> string list \<times> string)" where
  "scan_span lines j brace_count fn_lines fn_body =
     (if j < length lines \<and> brace_count > 0 then
        (case py_getitem lines j of
           Inl e \<Rightarrow> Inl e
         | Inr l \<Rightarrow>
             scan_span lines (j + 1)
               (brace_count + (int (py_count l CHR ''{'') - int (py_count l CHR ''}'')))
               (fn_lines @ [l])
               (fn_body @ l @ [CHR 0x0A]))
      else Inr (j, fn_lines, fn_body))"
  by pat_completeness auto
termination
  by (relation "measure (\<lambda>(lines, j, brace_count, fn_lines, fn_body). length lines - j)") auto

lemma scan_span_cursor:
  "scan_span lines j brace_count fn_lines fn_body = Inr (j', fn_lines', fn_body') \<Longrightarrow> j \<le> j'"
proof (induction lines j brace_count fn_lines fn_body rule: scan_span.induct)
  case (1 lines j brace_count fn_lines fn_body)
  show ?case
  proof (cases "j < length lines \<and> brace_count > 0")
    case True
    with "1.prems" "1.IH"[of "lines ! j"] show ?thesis
      by (simp add: py_getitem_def) 
  next
    case False
    with "1.prems" show ?thesis by simp
  qed
qed

text \<open>
  The body of the \<^verbatim>\<open>if match:\<close> branch after the inner loop: the marker test, the
  qualifier test and the edit of the signature line, which is \<open>fn_lines[0]\<close>.
\<close>

definition mark_async :: "string \<Rightarrow> string list \<Rightarrow> string \<Rightarrow> error + string list" where
  "mark_async line fn_lines fn_body =
     (if py_in ''.await'' fn_body then
        (if \<not> py_in ''async fn'' line then
           py_setitem fn_lines 0 (py_replace1 ''fn '' ''async fn '' line)
         else Inr fn_lines)
      else Inr fn_lines)"

text \<open>
  The outer loop, with its cursor \<open>i\<close> and the output lines \<open>result\<close> so far.
\<close>

function main_loop :: "string list \<Rightarrow> nat \<Rightarrow> string list \<Rightarrow> error + string list" where
  "main_loop lines i result =
     (if i < length lines then
        (case py_getitem lines i of
           Inl e \<Rightarrow> Inl e
         | Inr line \<Rightarrow>
             if re_match fn_pattern line then
               (case scan_span lines (i + 1) 1 [line] [] of
                  Inl e \<Rightarrow> Inl e
                | Inr (j, fn_lines, fn_body) \<Rightarrow>
                    (case mark_async line fn_lines fn_body of
                       Inl e \<Rightarrow> Inl e
                     | Inr fn_lines' \<Rightarrow> main_loop lines j (result @ fn_lines')))
             else main_loop lines (i + 1) (result @ [line]))
      else Inr result)"
  by pat_completeness auto
termination
proof (relation "measure (\<lambda>(lines, i, result). length lines - i)", goal_cases)
  case 1
  show ?case by simp
next
  case (2 lines i result line x j y fn_lines fn_body fn_lines')
  from 2(4,5,6) have "i + 1 \<le> j"
    using scan_span_cursor by blast
  with 2(1) show ?case by simp
next
  case 3
  then show ?case by simp
qed

definition fix_async_functions :: "string \<Rightarrow> error + string" where
  "fix_async_functions content =
     (case main_loop (py_split content) 0 [] of
        Inl e \<Rightarrow> Inl e
      | Inr result \<Rightarrow> Inr (py_join result))"

subsection \<open>Notions for the statements\<close>

text \<open>What a line adds to \<open>brace_count\<close>.\<close>

definition brace_delta :: "string \<Rightarrow> int" where
  "brace_delta l = int (py_count l CHR ''{'') - int (py_count l CHR ''}'')"

text \<open>
  How many of the lines \<open>ls\<close> the inner loop accumulates when it starts on them with
  the counter at \<open>d\<close>.
\<close>

fun span_len :: "int \<Rightarrow> string list \<Rightarrow> nat" where
  "span_len d [] = 0"
| "span_len d (l # ls) = (if d > 0 then Suc (span_len (d + brace_delta l) ls) else 0)"

text \<open>\<open>fn_body\<close> after the lines \<open>ls\<close> have been accumulated.\<close>

definition body_text :: "string list \<Rightarrow> string" where
  "body_text ls = concat (map (\<lambda>l. l @ [CHR 0x0A]) ls)"

text \<open>The signature line as the rewriter emits it for a span with the body lines \<open>body\<close>.\<close>

definition async_line :: "string \<Rightarrow> string list \<Rightarrow> string" where
  "async_line line body =
     (if py_in ''.await'' (body_text body) \<and> \<not> py_in ''async fn'' line
      then py_replace1 ''fn '' ''async fn '' line else line)"

text \<open>
  An input line and the output line at the same place: the same text, or a matched
  signature line without \<^verbatim>\<open>async fn\<close> and its edit.
\<close>

definition edit_rel :: "string \<Rightarrow> string \<Rightarrow> bool" where
  "edit_rel l l' =
     (l' = l \<or> (re_match fn_pattern l \<and> \<not> py_in ''async fn'' l
                \<and> l' = py_replace1 ''fn '' ''async fn '' l))"

text \<open>
  The brace counter of the span that starts at line \<open>i\<close>, after the lines \<open>i + 1\<close> to
  \<open>k\<close> have been counted: 1 on the signature line itself.
\<close>

definition brace_depth :: "string list \<Rightarrow> nat \<Rightarrow> nat \<Rightarrow> int" where
  "brace_depth lines i k = 1 + (\<Sum>m\<leftarrow>[Suc i..<Suc k]. brace_delta (lines ! m))"

text \<open>
  No line inside a span that the outer loop opens from line \<open>i\<close> on matches
  \<open>fn_pattern\<close>: the text has no signature line within the span of another one.
\<close>

function no_nested_signature :: "string list \<Rightarrow> nat \<Rightarrow> bool" where
  "no_nested_signature lines i =
     (if i < length lines then
        (if re_match fn_pattern (lines ! i) then
           (case scan_span lines (i + 1) 1 [lines ! i] [] of
              Inl e \<Rightarrow> False
            | Inr (j, fn_lines, fn_body) \<Rightarrow>
                list_all (\<lambda>k. \<not> re_match fn_pattern (lines ! k)) [i + 1..<j]
                \<and> no_nested_signature lines j)
         else no_nested_signature lines (i + 1))
      else True)"
  by pat_completeness auto
termination
proof (relation "measure (\<lambda>(lines, i). length lines - i)", goal_cases)
  case 1
  show ?case by simp
next
  case (2 lines i x j y fn_lines fn_body)
  from 2(3,4,5) have "i + 1 \<le> j"
    using scan_span_cursor by blast
  with 2(1) show ?case by simp
next
  case 3
  then show ?case by simp
qed

declare scan_span.simps [simp del] main_loop.simps [simp del]

declare no_nested_signature.simps [simp del]

section \<open>Properties\<close>

subsection \<open>The two loops\<close>

lemma span_len_le: "span_len d ls \<le> length ls"
  by (induction ls arbitrary: d) auto

lemma scan_span_eq:
  "j \<le> length lines \<Longrightarrow>
   scan_span lines j d fl fb =
     Inr (j + span_len d (drop j lines),
          fl @ take (span_len d (drop j lines)) (drop j lines),
          fb @ body_text (take (span_len d (drop j lines)) (drop j lines)))"
proof (induction lines j d fl fb rule: scan_span.induct)
  case (1 lines j d fl fb)
  show ?case
  proof (cases "j < length lines")
    case True
    then have dr: "drop j lines = lines ! j # drop (Suc j) lines"
      by (simp add: Cons_nth_drop_Suc)
    show ?thesis
    proof (cases "d > 0")
      case pos: True
      from True pos "1.IH"[of "lines ! j"] have
        "scan_span lines (j + 1) (d + brace_delta (lines ! j)) (fl @ [lines ! j]) (fb @ lines ! j @ [CHR 0x0A]) =
         Inr (j + 1 + span_len (d + brace_delta (lines ! j)) (drop (j + 1) lines),
          (fl @ [lines ! j]) @ take (span_len (d + brace_delta (lines ! j)) (drop (j + 1) lines)) (drop (j + 1) lines),
          (fb @ lines ! j @ [CHR 0x0A]) @ body_text (take (span_len (d + brace_delta (lines ! j)) (drop (j + 1) lines)) (drop (j + 1) lines)))"
        by (simp add: py_getitem_def brace_delta_def)
      with True pos show ?thesis
        by (subst scan_span.simps) (simp add: py_getitem_def dr body_text_def brace_delta_def)
    next
      case False
      with True show ?thesis
        by (subst scan_span.simps) (simp add: dr body_text_def)
    qed
  next
    case False
    with "1.prems" show ?thesis
      by (subst scan_span.simps) (simp add: body_text_def)
  qed
qed



lemma main_loop_end: "length lines \<le> i \<Longrightarrow> main_loop lines i result = Inr result"
  by (subst main_loop.simps) simp

lemma main_loop_nomatch:
  "i < length lines \<Longrightarrow> \<not> re_match fn_pattern (lines ! i) \<Longrightarrow>
   main_loop lines i result = main_loop lines (Suc i) (result @ [lines ! i])"
  by (subst main_loop.simps) (simp add: py_getitem_def)

lemma main_loop_match:
  assumes "i < length lines" and "re_match fn_pattern (lines ! i)"
  shows "main_loop lines i result =
     main_loop lines (Suc i + span_len 1 (drop (Suc i) lines))
       (result @ async_line (lines ! i) (take (span_len 1 (drop (Suc i) lines)) (drop (Suc i) lines))
               # take (span_len 1 (drop (Suc i) lines)) (drop (Suc i) lines))"
proof -
  from assms(1) have "Suc i \<le> length lines" by simp
  from scan_span_eq[OF this, of 1 "[lines ! i]" "[]"] assms show ?thesis
    by (subst main_loop.simps)
       (simp add: py_getitem_def mark_async_def py_setitem_def async_line_def)
qed




lemma edit_rel_refl: "edit_rel l l"
  by (simp add: edit_rel_def)

lemma list_all2_edit_rel_refl: "list_all2 edit_rel ls ls"
  by (simp add: list_all2_same edit_rel_refl) 

lemma edit_rel_async_line: "re_match fn_pattern l \<Longrightarrow> edit_rel l (async_line l body)"
  by (simp add: edit_rel_def async_line_def)

lemma drop_span_split:
  "i < length lines \<Longrightarrow>
   drop i lines = lines ! i # take n (drop (Suc i) lines) @ drop (Suc i + n) lines"
proof -
  assume "i < length lines"
  then have "drop i lines = lines ! i # drop (Suc i) lines"
    by (simp add: Cons_nth_drop_Suc)
  moreover have "drop (Suc i) lines = take n (drop (Suc i) lines) @ drop (Suc i + n) lines"
    using append_take_drop_id[of n "drop (Suc i) lines"] by (simp add: add.commute)
  ultimately show ?thesis by simp
qed

lemma main_loop_rel:
  "\<exists>out. main_loop lines i result = Inr (result @ out) \<and> list_all2 edit_rel (drop i lines) out"
proof (induction "length lines - i" arbitrary: i result rule: less_induct)
  case less
  show ?case
  proof (cases "i < length lines")
    case False
    then show ?thesis by (simp add: main_loop_end)
  next
    case True
    show ?thesis
    proof (cases "re_match fn_pattern (lines ! i)")
      case False
      from True have "length lines - Suc i < length lines - i" by simp
      from less[OF this, of "result @ [lines ! i]"] obtain out where
        o: "main_loop lines (Suc i) (result @ [lines ! i]) = Inr ((result @ [lines ! i]) @ out)"
           "list_all2 edit_rel (drop (Suc i) lines) out" by blast
      from True have "drop i lines = lines ! i # drop (Suc i) lines"
        by (simp add: Cons_nth_drop_Suc)
      with o True False show ?thesis
        by (simp add: main_loop_nomatch edit_rel_refl)
    next
      case m: True
      define n where "n = span_len 1 (drop (Suc i) lines)"
      define body where "body = take n (drop (Suc i) lines)"
      from True have "length lines - (Suc i + n) < length lines - i" by simp
      from less[OF this, of "result @ async_line (lines ! i) body # body"] obtain out where
        o: "main_loop lines (Suc i + n) (result @ async_line (lines ! i) body # body)
              = Inr ((result @ async_line (lines ! i) body # body) @ out)"
           "list_all2 edit_rel (drop (Suc i + n) lines) out" by blast
      have "list_all2 edit_rel (lines ! i # body @ drop (Suc i + n) lines)
              (async_line (lines ! i) body # body @ out)"
        using o(2) m by (simp add: edit_rel_async_line list_all2_appendI list_all2_edit_rel_refl)
      moreover have "drop i lines = lines ! i # body @ drop (Suc i + n) lines"
        unfolding body_def by (rule drop_span_split[OF True])
      moreover have "main_loop lines i result = Inr (result @ async_line (lines ! i) body # body @ out)"
        using main_loop_match[OF True m, of result] o(1) by (simp add: n_def body_def)
      ultimately show ?thesis by auto 
    qed
  qed
qed


lemma py_split_nonempty: "py_split s \<noteq> []"
  by (induction s) (auto split: list.splits)

lemma py_split_no_newline: "l \<in> set (py_split s) \<Longrightarrow> CHR 0x0A \<notin> set l"
  by (induction s arbitrary: l) (auto split: list.splits if_splits)

lemma py_split_append_newline:
  "CHR 0x0A \<notin> set l \<Longrightarrow> py_split (l @ CHR 0x0A # s) = l # py_split s"
  by (induction l) auto

lemma py_split_line: "CHR 0x0A \<notin> set l \<Longrightarrow> py_split l = [l]"
  by (induction l) auto

lemma py_split_join:
  "ls \<noteq> [] \<Longrightarrow> \<forall>l\<in>set ls. CHR 0x0A \<notin> set l \<Longrightarrow> py_split (py_join ls) = ls"
  by (induction ls rule: py_join.induct) (auto simp: py_split_line py_split_append_newline)

lemma py_join_Cons_Cons: "py_join ((a # l) # ls) = a # py_join (l # ls)"
  by (cases ls) simp_all

lemma py_join_Nil_Cons: "ls \<noteq> [] \<Longrightarrow> py_join ([] # ls) = CHR 0x0A # py_join ls"
  by (cases ls) simp_all

lemma py_join_split: "py_join (py_split s) = s"
  by (induction s) (auto split: list.splits simp: py_join_Cons_Cons py_join_Nil_Cons py_split_nonempty)

lemma py_replace1_chars: "set (py_replace1 old new s) \<subseteq> set s \<union> set new"
  by (induction s) (auto dest: in_set_dropD)

lemma py_replace1_async:
  "py_replace1 ''fn '' ''async fn '' l \<noteq> l \<Longrightarrow> py_in ''async fn'' (py_replace1 ''fn '' ''async fn '' l)"
  by (induction l) auto

lemma edit_rel_no_newline: "edit_rel l l' \<Longrightarrow> CHR 0x0A \<notin> set l \<Longrightarrow> CHR 0x0A \<notin> set l'"
  using py_replace1_chars[of "''fn ''" "''async fn ''" l] by (auto simp: edit_rel_def)

lemma fix_async_functions_lines:
  "\<exists>out. fix_async_functions content = Inr (py_join out)
         \<and> py_split (py_join out) = out
         \<and> list_all2 edit_rel (py_split content) out"
proof -
  from main_loop_rel[of "py_split content" 0 "[]"] obtain out where
    o: "main_loop (py_split content) 0 [] = Inr out" "list_all2 edit_rel (py_split content) out"
    by auto
  from o(2) have "out \<noteq> []"
    using py_split_nonempty[of content] by auto
  moreover have "\<forall>l\<in>set out. CHR 0x0A \<notin> set l"
  proof
    fix l assume "l \<in> set out"
    then obtain k where k: "k < length out" "l = out ! k" by (auto simp: in_set_conv_nth)
    with o(2) have "edit_rel (py_split content ! k) l" "k < length (py_split content)"
      by (auto simp: list_all2_conv_all_nth)
    then show "CHR 0x0A \<notin> set l"
      using edit_rel_no_newline py_split_no_newline nth_mem by blast
  qed
  ultimately have "py_split (py_join out) = out" by (rule py_split_join)
  with o show ?thesis by (auto simp: fix_async_functions_def)
qed

subsection \<open>The extent of a span\<close>

lemma span_len_depth:
  "(\<forall>m<span_len d ls. 0 < d + sum_list (map brace_delta (take m ls)))
   \<and> (span_len d ls = length ls \<or> d + sum_list (map brace_delta (take (span_len d ls) ls)) \<le> 0)"
proof (induction ls arbitrary: d)
  case Nil
  then show ?case by simp
next
  case (Cons l ls)
  show ?case
  proof (cases "0 < d")
    case False
    then show ?thesis by simp
  next
    case True
    have "0 < d + sum_list (map brace_delta (take m (l # ls)))"
      if "m < Suc (span_len (d + brace_delta l) ls)" for m
    proof (cases m)
      case 0
      with True show ?thesis by simp
    next
      case (Suc m')
      with that Cons.IH[of "d + brace_delta l"] show ?thesis
        by (simp add: add.assoc)
    qed
    moreover have "span_len (d + brace_delta l) ls = length ls
      \<or> d + brace_delta l + sum_list (map brace_delta (take (span_len (d + brace_delta l) ls) ls)) \<le> 0"
      using Cons.IH[of "d + brace_delta l"] by blast
    ultimately show ?thesis using True by (simp add: add.assoc)
  qed
qed

lemma brace_depth_take:
  assumes "k < length lines" and "i \<le> k"
  shows "brace_depth lines i k = 1 + sum_list (map brace_delta (take (k - i) (drop (Suc i) lines)))"
proof -
  have "take (k - i) (drop (Suc i) lines) = map ((!) lines) [Suc i..<Suc k]"
  proof (rule nth_equalityI)
    show "length (take (k - i) (drop (Suc i) lines)) = length (map ((!) lines) [Suc i..<Suc k])"
      using assms by auto
  next
    fix m assume "m < length (take (k - i) (drop (Suc i) lines))"
    then have "m < Suc k - Suc i" by simp
    with assms show "take (k - i) (drop (Suc i) lines) ! m = map ((!) lines) [Suc i..<Suc k] ! m"
      by (simp only: nth_map_upt) simp
  qed
  then show ?thesis
    by (simp add: brace_depth_def comp_def)
qed

lemma fn_span_eq:
  assumes "i < length lines"
  shows "scan_span lines (Suc i) 1 [lines ! i] [] =
     Inr (Suc i + span_len 1 (drop (Suc i) lines),
          take (Suc (span_len 1 (drop (Suc i) lines))) (drop i lines),
          body_text (take (span_len 1 (drop (Suc i) lines)) (drop (Suc i) lines)))"
proof -
  from assms have "Suc i \<le> length lines" by simp
  from scan_span_eq[OF this, of 1 "[lines ! i]" "[]"] assms show ?thesis
    by (simp add: Cons_nth_drop_Suc[symmetric])
qed

lemma fn_span_depth:
  assumes "i < length lines" and "j = Suc i + span_len 1 (drop (Suc i) lines)"
  shows "j \<le> length lines"
    and "\<forall>k. i \<le> k \<and> k + 1 < j \<longrightarrow> 0 < brace_depth lines i k"
    and "j = length lines \<or> brace_depth lines i (j - 1) \<le> 0"
proof -
  let ?ls = "drop (Suc i) lines"
  let ?n = "span_len 1 ?ls"
  from span_len_le[of 1 ?ls] assms show le: "j \<le> length lines" by simp
  show "\<forall>k. i \<le> k \<and> k + 1 < j \<longrightarrow> 0 < brace_depth lines i k"
  proof (intro allI impI)
    fix k assume k: "i \<le> k \<and> k + 1 < j"
    with assms(2) have "k - i < ?n" by linarith
    with span_len_depth[of 1 ?ls] have "0 < 1 + sum_list (map brace_delta (take (k - i) ?ls))"
      by blast
    moreover from k le have "k < length lines" by simp
    ultimately show "0 < brace_depth lines i k"
      using k by (simp add: brace_depth_take)
  qed
  show "j = length lines \<or> brace_depth lines i (j - 1) \<le> 0"
  proof (cases "?n = length ?ls")
    case True
    with assms have "j = length lines" by simp
    then show ?thesis ..
  next
    case False
    with span_len_depth[of 1 ?ls]
    have "1 + sum_list (map brace_delta (take ?n ?ls)) \<le> 0" by blast
    moreover from False span_len_le[of 1 ?ls] assms have "j - 1 < length lines" "i \<le> j - 1" "j - 1 - i = ?n"
      by simp_all
    ultimately show ?thesis
      by (simp add: brace_depth_take)
  qed
qed

subsection \<open>What \<open>fn_pattern\<close> matches\<close>

lemma star_rests_decomp:
  "r \<in> set (star_rests p s) \<Longrightarrow> \<exists>w. s = w @ r \<and> (\<forall>c\<in>set w. p c)"
proof (induction s)
  case Nil
  then show ?case by simp
next
  case (Cons c cs)
  show ?case
  proof (cases "r = c # cs")
    case True
    then show ?thesis by simp
  next
    case False
    with Cons.prems have "p c" "r \<in> set (star_rests p cs)"
      by (auto split: if_splits)
    with Cons.IH obtain w where "cs = w @ r" "\<forall>c\<in>set w. p c" by blast
    with \<open>p c\<close> have "c # cs = (c # w) @ r \<and> (\<forall>c\<in>set (c # w). p c)" by simp
    then show ?thesis by blast
  qed
qed

lemma rx_seq_Cons_iff:
  "r \<in> set (rx_seq (x # xs) s) \<longleftrightarrow> (\<exists>m\<in>set (rx_item x s). r \<in> set (rx_seq xs m))"
  by simp

lemma re_match_Cons:
  "re_match (x # xs) s \<longleftrightarrow> (\<exists>m\<in>set (rx_item x s). re_match xs m)"
  by (auto simp: re_match_def)

lemma rx_suffix:
  "r \<in> set (rx_item x s) \<Longrightarrow> suffix r s"
  "r \<in> set (rx_seq xs s) \<Longrightarrow> suffix r s"
proof (induction x s and xs s arbitrary: r and r rule: rx_item_rx_seq.induct)
  case (1 w s)
  then show ?case by (auto simp: suffix_drop split: if_splits)
next
  case (2 p s)
  then show ?case by (auto dest!: star_rests_decomp simp: suffix_def)
next
  case (3 p s)
  then show ?case
    by (cases s) (auto dest!: star_rests_decomp simp: suffix_def split: if_splits)
next
  case (4 rs s)
  then show ?case by auto
next
  case (5 s)
  then show ?case by simp
next
  case (6 x xs s)
  then show ?case by (auto intro: suffix_order.trans)
qed

lemma re_match_last_lit:
  assumes "re_match (xs @ [RLit w]) s"
  shows "set w \<subseteq> set s"
  using assms
proof (induction xs arbitrary: s)
  case Nil
  then show ?case
    by (auto simp: re_match_def prefix_def split: if_splits)
next
  case (Cons x xs)
  from Cons.prems obtain m where m: "m \<in> set (rx_item x s)" "re_match (xs @ [RLit w]) m"
    by (auto simp: re_match_Cons)
  from m(1) have "set m \<subseteq> set s"
    using rx_suffix(1) set_mono_suffix by blast
  with Cons.IH[OF m(2)] show ?case by blast
qed

lemma fn_pattern_needs_brace: "re_match fn_pattern l \<Longrightarrow> CHR ''{'' \<in> set l"
proof -
  assume a: "re_match fn_pattern l"
  have "fn_pattern = butlast fn_pattern @ [RLit ''{'']"
    by (simp add: fn_pattern_def)
  with a re_match_last_lit[of "butlast fn_pattern" "''{''" l] show ?thesis by simp
qed

lemma re_match_RStar:
  "re_match (RStar p # xs) s \<Longrightarrow> \<exists>w r. s = w @ r \<and> (\<forall>c\<in>set w. p c) \<and> re_match xs r"
proof -
  assume "re_match (RStar p # xs) s"
  then obtain m where m: "m \<in> set (star_rests p s)" "re_match xs m"
    by (auto simp: re_match_Cons)
  from star_rests_decomp[OF m(1)] m(2) show ?thesis by blast
qed

lemma re_match_RPlus:
  "re_match (RPlus p # xs) s \<Longrightarrow> \<exists>w r. s = w @ r \<and> w \<noteq> [] \<and> (\<forall>c\<in>set w. p c) \<and> re_match xs r"
proof -
  assume "re_match (RPlus p # xs) s"
  then obtain c cs m where s: "s = c # cs" "p c" "m \<in> set (star_rests p cs)" "re_match xs m"
    by (cases s) (auto simp: re_match_Cons split: if_splits)
  from star_rests_decomp[OF s(3)] obtain w where "cs = w @ m" "\<forall>c\<in>set w. p c" by blast
  with s have "s = (c # w) @ m \<and> c # w \<noteq> [] \<and> (\<forall>c\<in>set (c # w). p c) \<and> re_match xs m" by simp
  then show ?thesis by blast
qed

lemma re_match_RLit: "re_match (RLit w # xs) s \<longleftrightarrow> (\<exists>r. s = w @ r \<and> re_match xs r)"
  by (auto simp: re_match_Cons prefix_def)

lemma rx_seq_append_iff:
  "r \<in> set (rx_seq (ys @ xs) s) \<longleftrightarrow> (\<exists>m\<in>set (rx_seq ys s). r \<in> set (rx_seq xs m))"
  by (induction ys arbitrary: s) auto

lemma re_match_iff: "re_match xs s \<longleftrightarrow> (\<exists>r. r \<in> set (rx_seq xs s))"
  by (cases "rx_seq xs s") (auto simp: re_match_def)

lemma re_match_ROpt:
  "re_match (ROpt ys # xs) s \<longleftrightarrow> re_match (ys @ xs) s \<or> re_match xs s"
  unfolding re_match_iff rx_seq_append_iff by auto

lemma fn_pattern_head:
  assumes "re_match fn_pattern l"
  shows "\<exists>ws t. l = ws @ t \<and> (\<forall>c\<in>set ws. is_space c)
           \<and> (prefix ''fn'' t
               \<or> (\<exists>ws2 t2. t = ''pub'' @ ws2 @ t2 \<and> ws2 \<noteq> [] \<and> (\<forall>c\<in>set ws2. is_space c)
                     \<and> prefix ''fn'' t2))"
proof -
  from assms obtain ws t where l: "l = ws @ t" "\<forall>c\<in>set ws. is_space c"
    and t: "re_match (tl fn_pattern) t"
    unfolding fn_pattern_def using re_match_RStar by (metis list.sel(3))
  from t have "re_match ([RLit ''pub'', RPlus is_space] @ tl (tl fn_pattern)) t \<or> re_match (tl (tl fn_pattern)) t"
    by (simp add: fn_pattern_def re_match_ROpt)
  then show ?thesis
  proof
    assume "re_match (tl (tl fn_pattern)) t"
    then have "prefix ''fn'' t"
      by (auto simp: fn_pattern_def re_match_RLit)
    with l show ?thesis by blast
  next
    assume "re_match ([RLit ''pub'', RPlus is_space] @ tl (tl fn_pattern)) t"
    then obtain r where r: "t = ''pub'' @ r" "re_match (RPlus is_space # tl (tl fn_pattern)) r"
      by (auto simp: re_match_RLit)
    from re_match_RPlus[OF r(2)] obtain ws2 t2 where
      w: "r = ws2 @ t2" "ws2 \<noteq> []" "\<forall>c\<in>set ws2. is_space c" "re_match (tl (tl fn_pattern)) t2"
      by blast
    from w(4) have "prefix ''fn'' t2"
      by (auto simp: fn_pattern_def re_match_RLit)
    with l r(1) w show ?thesis by blast
  qed
qed

subsection \<open>Signature lines that are async already\<close>

lemma space_run_unique:
  assumes "\<forall>c\<in>set ws. is_space c" and "\<not> is_space x"
    and "\<forall>c\<in>set ws'. is_space c" and "\<not> is_space y"
    and "ws @ x # r = ws' @ y # r'"
  shows "ws = ws' \<and> x = y \<and> r = r'"
  using assms
proof (induction ws arbitrary: ws')
  case Nil
  then show ?case by (cases ws') auto
next
  case (Cons c ws)
  then show ?case by (cases ws') auto
qed

lemma async_not_matched:
  assumes "\<forall>c\<in>set ws. is_space c"
  shows "\<not> re_match fn_pattern (ws @ ''async fn'' @ rest)"
proof
  assume "re_match fn_pattern (ws @ ''async fn'' @ rest)"
  from fn_pattern_head[OF this] obtain ws' t where
    t: "ws @ ''async fn'' @ rest = ws' @ t" "\<forall>c\<in>set ws'. is_space c"
       "prefix ''fn'' t \<or> prefix ''pub'' t"
    by (auto simp: prefix_def)
  then obtain y r' where y: "t = y # r'" "y = CHR ''f'' \<or> y = CHR ''p''"
    by (auto simp: prefix_def)
  then have "\<not> is_space y" by (auto simp: is_space_def)
  moreover have "\<not> is_space CHR ''a''" by (simp add: is_space_def)
  ultimately have "CHR ''a'' = y"
    using space_run_unique[OF assms _ t(2), of "CHR ''a''" y "''sync fn'' @ rest" r'] t(1) y(1)
    by simp
  with y(2) show False by auto
qed

lemma pub_async_not_matched:
  assumes "\<forall>c\<in>set ws. is_space c"
  shows "\<not> re_match fn_pattern (ws @ ''pub async fn'' @ rest)"
proof
  assume "re_match fn_pattern (ws @ ''pub async fn'' @ rest)"
  from fn_pattern_head[OF this] obtain ws' t where
    t: "ws @ ''pub async fn'' @ rest = ws' @ t" "\<forall>c\<in>set ws'. is_space c"
    and alt: "prefix ''fn'' t
           \<or> (\<exists>ws2 t2. t = ''pub'' @ ws2 @ t2 \<and> ws2 \<noteq> [] \<and> (\<forall>c\<in>set ws2. is_space c)
                 \<and> prefix ''fn'' t2)"
    by blast
  have np: "\<not> is_space CHR ''p''" "\<not> is_space CHR ''f''" "\<not> is_space CHR ''a''"
    by (simp_all add: is_space_def)
  from alt show False
  proof
    assume "prefix ''fn'' t"
    then obtain r' where "t = CHR ''f'' # r'" by (auto simp: prefix_def)
    with space_run_unique[OF assms np(1) t(2) np(2), of "''ub async fn'' @ rest" r'] t(1)
    show False by simp
  next
    assume "\<exists>ws2 t2. t = ''pub'' @ ws2 @ t2 \<and> ws2 \<noteq> [] \<and> (\<forall>c\<in>set ws2. is_space c)
                 \<and> prefix ''fn'' t2"
    then obtain ws2 r2 where w: "t = ''pub'' @ ws2 @ CHR ''f'' # r2" "\<forall>c\<in>set ws2. is_space c"
      by (auto simp: prefix_def)
    with space_run_unique[OF assms np(1) t(2) np(1), of "''ub async fn'' @ rest" "''ub'' @ ws2 @ CHR ''f'' # r2"] t(1)
    have "'' async fn'' @ rest = ws2 @ CHR ''f'' # r2" by simp
    moreover have "\<forall>c\<in>set '' ''. is_space c" by (simp add: is_space_def)
    ultimately show False
      using space_run_unique[OF _ np(3) w(2) np(2), of "'' ''" "''sync fn'' @ rest" r2] by simp
  qed
qed

subsection \<open>The marker in the body of a span\<close>

lemma prefix_before_newline:
  assumes "CHR 0x0A \<notin> set sub"
  shows "prefix sub (a @ CHR 0x0A # b) \<longleftrightarrow> prefix sub a"
proof
  assume "prefix sub (a @ CHR 0x0A # b)"
  then consider "prefix sub a" | us where "sub = a @ us" "prefix us (CHR 0x0A # b)"
    by (auto simp: prefix_append)
  then show "prefix sub a"
  proof cases
    case 1
    then show ?thesis .
  next
    case 2
    with assms have "us = []"
      by (cases us) auto
    with 2 show ?thesis by simp
  qed
next
  assume "prefix sub a"
  then show "prefix sub (a @ CHR 0x0A # b)" by (simp add: prefix_prefix) 
qed

lemma py_in_across_newline:
  assumes "CHR 0x0A \<notin> set sub" and "sub \<noteq> []"
  shows "py_in sub (a @ CHR 0x0A # b) \<longleftrightarrow> py_in sub a \<or> py_in sub b"
proof (induction a)
  case Nil
  from assms have "\<not> prefix sub (CHR 0x0A # b)"
    by (cases sub) auto
  with assms show ?case by simp
next
  case (Cons c a)
  from prefix_before_newline[OF assms(1), of "c # a" b]
  have "prefix sub (c # a @ CHR 0x0A # b) \<longleftrightarrow> prefix sub (c # a)" by simp
  with Cons show ?case by auto
qed

lemma py_in_body_text:
  assumes "CHR 0x0A \<notin> set sub" and "sub \<noteq> []"
  shows "py_in sub (body_text ls) \<longleftrightarrow> (\<exists>l\<in>set ls. py_in sub l)"
proof (induction ls)
  case Nil
  from assms show ?case by (simp add: body_text_def)
next
  case (Cons l ls)
  have "body_text (l # ls) = l @ CHR 0x0A # body_text ls"
    by (simp add: body_text_def)
  with Cons py_in_across_newline[OF assms, of l "body_text ls"] show ?case by simp
qed

lemma await_in_body:
  "py_in ''.await'' (body_text ls) \<longleftrightarrow> (\<exists>l\<in>set ls. py_in ''.await'' l)"
  by (rule py_in_body_text) simp_all

lemma main_loop_keeps_result:
  "\<exists>out. main_loop lines i result = Inr (result @ out)"
  using main_loop_rel[of lines i result] by blast

lemma span_len_unterminated:
  assumes "i < length lines"
    and "\<forall>k. i \<le> k \<and> k < length lines \<longrightarrow> 0 < brace_depth lines i k"
  shows "Suc i + span_len 1 (drop (Suc i) lines) = length lines"
proof -
  define j where "j = Suc i + span_len 1 (drop (Suc i) lines)"
  from fn_span_depth(1,3)[OF assms(1) j_def] have "j \<le> length lines"
    and "j = length lines \<or> brace_depth lines i (j - 1) \<le> 0" by simp_all
  moreover have "i \<le> j - 1 \<and> (j \<noteq> length lines \<longrightarrow> j - 1 < length lines)"
    using \<open>j \<le> length lines\<close> by (auto simp: j_def)
  ultimately have "j = length lines"
    using assms(2) by force
  then show ?thesis by (simp add: j_def)
qed

subsection \<open>A second run over the output\<close>

lemma no_nested_nomatch:
  "i < length lines \<Longrightarrow> \<not> re_match fn_pattern (lines ! i) \<Longrightarrow>
   no_nested_signature lines i = no_nested_signature lines (Suc i)"
  by (subst no_nested_signature.simps) simp

lemma no_nested_match:
  assumes "i < length lines" and "re_match fn_pattern (lines ! i)"
  shows "no_nested_signature lines i \<longleftrightarrow>
     (\<forall>k. i < k \<and> k < Suc i + span_len 1 (drop (Suc i) lines) \<longrightarrow> \<not> re_match fn_pattern (lines ! k))
     \<and> no_nested_signature lines (Suc i + span_len 1 (drop (Suc i) lines))"
proof -
  have "list_all (\<lambda>k. \<not> re_match fn_pattern (lines ! k)) [Suc i..<j]
      \<longleftrightarrow> (\<forall>k. i < k \<and> k < j \<longrightarrow> \<not> re_match fn_pattern (lines ! k))" for j
    by (auto simp: list_all_iff)
  with assms fn_span_eq[OF assms(1)] show ?thesis
    by (subst no_nested_signature.simps) (simp del: upt_Suc)
qed

lemma py_count_replace1:
  assumes "c \<notin> set old" and "c \<notin> set new"
  shows "py_count (py_replace1 old new s) c = py_count s c"
proof (induction s)
  case Nil
  from assms show ?case by (auto simp: py_count_def filter_empty_conv)
next
  case (Cons x xs)
  show ?case
  proof (cases "prefix old (x # xs)")
    case True
    then obtain r where r: "x # xs = old @ r" by (auto simp: prefix_def)
    then have d: "drop (length old) (x # xs) = r" by (metis append_eq_conv_conj)
    from assms have f: "filter (\<lambda>x. x = c) new = []" "filter (\<lambda>x. x = c) old = []"
      by (auto simp: filter_empty_conv)
    have "py_replace1 old new (x # xs) = new @ r"
      using True d by (simp only: py_replace1.simps if_True)
    then have "py_count (py_replace1 old new (x # xs)) c = py_count (new @ r) c"
      by (simp only:)
    also have "\<dots> = py_count r c"
      using f by (simp add: py_count_def)
    also have "\<dots> = py_count (old @ r) c"
      using f by (simp add: py_count_def)
    also have "\<dots> = py_count (x # xs) c"
      by (simp only: r)
    finally show ?thesis .
  next
    case False
    with Cons show ?thesis by (simp add: py_count_def)
  qed
qed

lemma edit_rel_brace_delta: "edit_rel l l' \<Longrightarrow> brace_delta l' = brace_delta l"
proof -
  have "brace_delta (py_replace1 ''fn '' ''async fn '' l) = brace_delta l"
    by (simp add: brace_delta_def py_count_replace1)
  then show "edit_rel l l' \<Longrightarrow> brace_delta l' = brace_delta l"
    by (auto simp: edit_rel_def)
qed

lemma span_len_cong:
  "map brace_delta xs = map brace_delta ys \<Longrightarrow> span_len d xs = span_len d ys"
proof (induction xs arbitrary: ys d)
  case Nil
  then show ?case by simp
next
  case (Cons x xs)
  then obtain y ys' where "ys = y # ys'" by (cases ys) auto
  with Cons show ?case by auto
qed

lemma async_line_idem: "async_line (async_line l body) body = async_line l body"
proof (cases "py_replace1 ''fn '' ''async fn '' l = l")
  case True
  then show ?thesis by (simp add: async_line_def)
next
  case False
  from py_replace1_async[OF this] show ?thesis by (simp add: async_line_def)
qed

lemma list_all2_edit_rel_deltas:
  "list_all2 edit_rel xs ys \<Longrightarrow> map brace_delta ys = map brace_delta xs"
  by (induction rule: list_all2_induct) (simp_all add: edit_rel_brace_delta)

lemma copy_run:
  assumes "b \<le> length ls" and "a \<le> b"
    and "\<forall>k. a \<le> k \<and> k < b \<longrightarrow> \<not> re_match fn_pattern (ls ! k)"
  shows "main_loop ls a r = main_loop ls b (r @ take (b - a) (drop a ls))"
  using assms
proof (induction "b - a" arbitrary: a r)
  case 0
  then show ?case by simp
next
  case (Suc d)
  then have a: "a < length ls" "\<not> re_match fn_pattern (ls ! a)" "d = b - Suc a" "Suc a \<le> b"
    by auto
  from Suc.prems have "\<forall>k. Suc a \<le> k \<and> k < b \<longrightarrow> \<not> re_match fn_pattern (ls ! k)" by auto
  from Suc.hyps(1)[OF a(3) Suc.prems(1) a(4) this, of "r @ [ls ! a]"]
  have "main_loop ls (Suc a) (r @ [ls ! a]) =
        main_loop ls b (r @ ls ! a # take (b - Suc a) (drop (Suc a) ls))" by simp
  moreover have "take (b - a) (drop a ls) = ls ! a # take (b - Suc a) (drop (Suc a) ls)"
  proof -
    from a(4) have "b - a = Suc (b - Suc a)" by simp
    with a(1) show ?thesis by (simp add: Cons_nth_drop_Suc[symmetric])
  qed
  ultimately show ?case
    using main_loop_nomatch[OF a(1,2), of r] by simp
qed

lemma second_run_fixed:
  assumes "main_loop ls i r = Inr (r @ out)" and "no_nested_signature ls i"
    and "length ls' = length ls" and "drop i ls' = out"
  shows "main_loop ls' i r2 = Inr (r2 @ out)"
  using assms
proof (induction "length ls - i" arbitrary: i r r2 out rule: less_induct)
  case less
  show ?case
  proof (cases "i < length ls")
    case False
    with less.prems(1) have "out = []" by (simp add: main_loop_end)
    with False less.prems(3) show ?thesis by (simp add: main_loop_end)
  next
    case True
    with less.prems(3) have i': "i < length ls'" by simp
    then have dr: "drop i ls' = ls' ! i # drop (Suc i) ls'"
      by (simp add: Cons_nth_drop_Suc)
    show ?thesis
    proof (cases "re_match fn_pattern (ls ! i)")
      case False
      from main_loop_rel[of ls "Suc i" "r @ [ls ! i]"] obtain o' where
        o': "main_loop ls (Suc i) (r @ [ls ! i]) = Inr ((r @ [ls ! i]) @ o')" by blast
      with less.prems(1) main_loop_nomatch[OF True False, of r] have out: "out = ls ! i # o'"
        by simp
      with less.prems(4) dr have e: "ls' ! i = ls ! i" "drop (Suc i) ls' = o'" by simp_all
      from less.prems(2) have nn: "no_nested_signature ls (Suc i)"
        by (simp add: no_nested_nomatch[OF True False])
      from True have "length ls - Suc i < length ls - i" by simp
      from less.hyps[OF this o' nn less.prems(3) e(2), of "r2 @ [ls' ! i]"]
      have "main_loop ls' (Suc i) (r2 @ [ls' ! i]) = Inr ((r2 @ [ls' ! i]) @ o')" .
      with main_loop_nomatch[OF i', of r2] False e(1) out show ?thesis by simp
    next
      case m: True
      define n where "n = span_len 1 (drop (Suc i) ls)"
      define body where "body = take n (drop (Suc i) ls)"
      define sg where "sg = async_line (ls ! i) body"
      define j where "j = Suc i + n"
      have nl: "n \<le> length (drop (Suc i) ls)" unfolding n_def by (rule span_len_le)
      then have lb: "length body = n" and jl: "j \<le> length ls"
        using True by (simp_all add: body_def j_def)
      from main_loop_rel[of ls j "r @ sg # body"] obtain o' where
        o': "main_loop ls j (r @ sg # body) = Inr ((r @ sg # body) @ o')"
        and rel: "list_all2 edit_rel (drop j ls) o'" by blast
      from main_loop_match[OF True m, of r] less.prems(1) o'
      have out: "out = sg # body @ o'"
        by (simp add: n_def body_def sg_def j_def)
      with less.prems(4) dr have e: "ls' ! i = sg" "drop (Suc i) ls' = body @ o'" by simp_all
      from e(2) lb have tb: "take n (drop (Suc i) ls') = body" by simp
      from e(2) lb have "drop n (drop (Suc i) ls') = o'" by simp
      then have dj: "drop j ls' = o'" by (simp add: j_def add.commute)
      from less.prems(2) have nn: "\<forall>k. i < k \<and> k < j \<longrightarrow> \<not> re_match fn_pattern (ls ! k)"
        and nj: "no_nested_signature ls j"
        by (simp_all add: no_nested_match[OF True m] j_def n_def)
      from True have "length ls - j < length ls - i" by (simp add: j_def)
      from less.hyps[OF this o' nj less.prems(3) dj]
      have ih: "main_loop ls' j r2' = Inr (r2' @ o')" for r2' .
      show ?thesis
      proof (cases "re_match fn_pattern sg")
        case True
        have "drop (Suc i) ls = body @ drop j ls"
          using append_take_drop_id[of n "drop (Suc i) ls"] by (simp add: body_def j_def add.commute)
        with e(2) list_all2_edit_rel_deltas[OF rel]
        have "map brace_delta (drop (Suc i) ls') = map brace_delta (drop (Suc i) ls)" by simp
        then have n2: "span_len 1 (drop (Suc i) ls') = n"
          unfolding n_def by (rule span_len_cong)
        from True e(1) have "re_match fn_pattern (ls' ! i)" by simp
        from main_loop_match[OF i' this, of r2]
        have "main_loop ls' i r2 = main_loop ls' j (r2 @ async_line sg body # body)"
          by (simp add: n2 tb e(1) j_def)
        also have "async_line sg body = sg"
          unfolding sg_def by (rule async_line_idem)
        finally show ?thesis using ih[of "r2 @ sg # body"] out by simp
      next
        case False
        with e(1) have "\<not> re_match fn_pattern (ls' ! i)" by simp
        from main_loop_nomatch[OF i' this, of r2] e(1)
        have 1: "main_loop ls' i r2 = main_loop ls' (Suc i) (r2 @ [sg])" by simp
        have same: "ls' ! k = ls ! k" if "i < k" "k < j" for k
        proof -
          from that have k: "k - Suc i < n" "Suc i + (k - Suc i) = k" by (simp_all add: j_def)
          from that jl less.prems(3) have "k < length ls" "k < length ls'" by simp_all
          then have "ls' ! k = drop (Suc i) ls' ! (k - Suc i)" "ls ! k = drop (Suc i) ls ! (k - Suc i)"
            using k(2) by simp_all
          moreover have "take n (drop (Suc i) ls') ! (k - Suc i) = take n (drop (Suc i) ls) ! (k - Suc i)"
            using tb by (simp only: body_def)
          ultimately show ?thesis using k(1) by simp
        qed
        with nn have "\<forall>k. Suc i \<le> k \<and> k < j \<longrightarrow> \<not> re_match fn_pattern (ls' ! k)" by simp
        moreover from jl less.prems(3) have "j \<le> length ls'" by simp
        moreover have "Suc i \<le> j" by (simp add: j_def)
        ultimately have "main_loop ls' (Suc i) (r2 @ [sg]) =
            main_loop ls' j ((r2 @ [sg]) @ take (j - Suc i) (drop (Suc i) ls'))"
          by (rule copy_run[rotated 2])
        also have "j - Suc i = n" by (simp add: j_def)
        finally show ?thesis using 1 tb ih[of "r2 @ sg # body"] out by simp
      qed
    qed
  qed
qed

lemma main_loop_split_join:
  assumes "main_loop (py_split content) 0 [] = Inr out"
  shows "py_split (py_join out) = out" and "list_all2 edit_rel (py_split content) out"
proof -
  from main_loop_rel[of "py_split content" 0 "[]"] assms
  show rel: "list_all2 edit_rel (py_split content) out" by auto
  then have "out \<noteq> []"
    using py_split_nonempty[of content] by auto
  moreover have "\<forall>l\<in>set out. CHR 0x0A \<notin> set l"
  proof
    fix l assume "l \<in> set out"
    then obtain k where k: "k < length out" "l = out ! k" by (auto simp: in_set_conv_nth)
    with rel have "edit_rel (py_split content ! k) l" "k < length (py_split content)"
      by (auto simp: list_all2_conv_all_nth)
    then show "CHR 0x0A \<notin> set l"
      using edit_rel_no_newline py_split_no_newline nth_mem by blast
  qed
  ultimately show "py_split (py_join out) = out" by (rule py_split_join)
qed

lemma brace_depth_update: "brace_depth (lines[i := sig]) i k = brace_depth lines i k"
proof -
  have "map (\<lambda>m. brace_delta (lines[i := sig] ! m)) [Suc i..<Suc k]
      = map (\<lambda>m. brace_delta (lines ! m)) [Suc i..<Suc k]"
    by (rule map_cong) auto
  then show ?thesis by (simp only: brace_depth_def)
qed


section \<open>The claims\<close>

text \<open>
  C4. The output has as many lines as the input, in the same order, and a line of the
  output that differs from the input line at its place is a signature line that
  \<open>fn_pattern\<close> matches, with the first \<^verbatim>\<open>fn \<close> replaced by \<^verbatim>\<open>async fn \<close>. Every other
  line is the input line, character for character.
\<close>

theorem verbatim_outside_edit:
  "\<exists>out. fix_async_functions content = Inr out
     \<and> length (py_split out) = length (py_split content)
     \<and> (\<forall>k<length (py_split content).
           py_split out ! k \<noteq> py_split content ! k \<longrightarrow>
             re_match fn_pattern (py_split content ! k)
             \<and> py_split out ! k = py_replace1 ''fn '' ''async fn '' (py_split content ! k))"
proof -
  from fix_async_functions_lines[of content] obtain ls where
    ls: "fix_async_functions content = Inr (py_join ls)" "py_split (py_join ls) = ls"
        "list_all2 edit_rel (py_split content) ls" by blast
  from ls(3) have "length ls = length (py_split content)"
    and "\<forall>k<length (py_split content). edit_rel (py_split content ! k) (ls ! k)"
    by (auto simp: list_all2_conv_all_nth)
  with ls(1,2) show ?thesis
    by (auto simp: edit_rel_def)
qed

theorem verbatim_outside_edit_witness:
  "fix_async_functions (py_join [''// a'', ''fn f() {'', ''    x.await;'', ''}''])
     = Inr (py_join [''// a'', ''async fn f() {'', ''    x.await;'', ''}''])
   \<and> re_match fn_pattern ''fn f() {''
   \<and> ''async fn f() {'' = py_replace1 ''fn '' ''async fn '' ''fn f() {''"
proof -
  let ?c = "py_join [''// a'', ''fn f() {'', ''    x.await;'', ''}'']"
  have e: "fix_async_functions ?c = Inr (py_join [''// a'', ''async fn f() {'', ''    x.await;'', ''}''])"
    by code_simp
  have s: "py_split ?c = [''// a'', ''fn f() {'', ''    x.await;'', ''}'']"
    "py_split (py_join [''// a'', ''async fn f() {'', ''    x.await;'', ''}'']) =
       [''// a'', ''async fn f() {'', ''    x.await;'', ''}'']"
    by code_simp+
  from verbatim_outside_edit[of ?c] e s show ?thesis
    by (auto simp: nth_Cons' dest!: spec[of _ 1])
qed

text \<open>
  C6, as the code has it. A line without any opening brace is never recognised as the
  start of a function, whatever follows on the next lines, and the output has the same
  line at its place.
\<close>

theorem brace_on_later_line_not_recognised:
  assumes "k < length (py_split content)" and "CHR ''{'' \<notin> set (py_split content ! k)"
  shows "\<not> re_match fn_pattern (py_split content ! k)
     \<and> (\<exists>out. fix_async_functions content = Inr out \<and> py_split out ! k = py_split content ! k)"
proof -
  from assms(2) have n: "\<not> re_match fn_pattern (py_split content ! k)"
    using fn_pattern_needs_brace by blast
  from fix_async_functions_lines[of content] obtain ls where
    ls: "fix_async_functions content = Inr (py_join ls)" "py_split (py_join ls) = ls"
        "list_all2 edit_rel (py_split content) ls" by blast
  from ls(3) assms(1) have "edit_rel (py_split content ! k) (ls ! k)"
    by (simp add: list_all2_conv_all_nth)
  with n have "ls ! k = py_split content ! k"
    by (simp add: edit_rel_def)
  with n ls(1,2) show ?thesis by simp
qed

theorem brace_on_later_line_not_recognised_witness:
  "\<not> re_match fn_pattern ''fn f()''
   \<and> (\<exists>out. fix_async_functions (py_join [''fn f()'', ''{'', ''    x.await;'', ''}'']) = Inr out
        \<and> py_split out ! 0 = ''fn f()'')"
proof -
  let ?c = "py_join [''fn f()'', ''{'', ''    x.await;'', ''}'']"
  have s: "py_split ?c = [''fn f()'', ''{'', ''    x.await;'', ''}'']"
    by code_simp
  then have "0 < length (py_split ?c)" "CHR ''{'' \<notin> set (py_split ?c ! 0)"
    by simp_all
  from brace_on_later_line_not_recognised[OF this] s show ?thesis
    by simp
qed

text \<open>
  C6 as stated fails: the brace that \<open>fn_pattern\<close> asks for need not be the one that
  opens the body. A signature with a brace in its return type and the body's brace on
  the next line is recognised and rewritten.
\<close>

theorem brace_in_return_type_recognised:
  "re_match fn_pattern ''fn f() -> [u8; {N}]''
   \<and> fix_async_functions (py_join [''fn f() -> [u8; {N}]'', ''{'', ''    x.await;'', ''}''])
       = Inr (py_join [''async fn f() -> [u8; {N}]'', ''{'', ''    x.await;'', ''}''])"
  by code_simp

text \<open>
  C3, as the code has it. The span of a matched signature line \<open>i\<close> is the lines \<open>i\<close> to
  \<open>j - 1\<close>: the counter, 1 on the signature line, is positive after every line of the span
  but the last, and the last line of the span is the first one after which the counter is
  zero or negative, or else the last line of the input. A brace pair nested in the body
  keeps the counter positive and does not close the span.
\<close>

theorem span_extent:
  assumes "i < length lines" and "re_match fn_pattern (lines ! i)"
  shows "\<exists>j fn_body.
           scan_span lines (Suc i) 1 [lines ! i] [] = Inr (j, take (j - i) (drop i lines), fn_body)
         \<and> i < j \<and> j \<le> length lines
         \<and> (\<forall>k. i \<le> k \<and> k + 1 < j \<longrightarrow> 0 < brace_depth lines i k)
         \<and> (j = length lines \<or> brace_depth lines i (j - 1) \<le> 0)"
proof -
  define j where "j = Suc i + span_len 1 (drop (Suc i) lines)"
  then have "j - i = Suc (span_len 1 (drop (Suc i) lines))" and "i < j" by simp_all
  with fn_span_eq[OF assms(1)] fn_span_depth[OF assms(1) j_def] j_def show ?thesis
    by auto
qed

theorem span_extent_witness:
  "\<exists>fn_body.
      scan_span [''fn f() {'', ''    if a {'', ''    }'', ''}'', ''// end''] 1 1 [''fn f() {''] []
        = Inr (4, [''fn f() {'', ''    if a {'', ''    }'', ''}''], fn_body)
    \<and> 0 < brace_depth [''fn f() {'', ''    if a {'', ''    }'', ''}'', ''// end''] 0 2
    \<and> brace_depth [''fn f() {'', ''    if a {'', ''    }'', ''}'', ''// end''] 0 3 \<le> 0"
proof -
  let ?ls = "[''fn f() {'', ''    if a {'', ''    }'', ''}'', ''// end'']"
  have a: "0 < length ?ls" by simp
  have b: "re_match fn_pattern (?ls ! 0)" by code_simp
  have c: "scan_span ?ls 1 1 [''fn f() {''] [] =
    Inr (4, [''fn f() {'', ''    if a {'', ''    }'', ''}''], ''    if a {'' @ [CHR 0x0A] @ ''    }'' @ [CHR 0x0A] @ ''}'' @ [CHR 0x0A])"
    by code_simp
  from span_extent[OF a b] c show ?thesis
    by auto
qed

text \<open>
  C3 as stated fails: a line can take the counter from 1 to below zero. The span then
  ends on that line, and not on the later line after which the counter is zero.
\<close>

theorem span_closes_below_zero:
  "re_match fn_pattern ''fn f() {''
   \<and> scan_span [''fn f() {'', ''}}'', ''{'', ''x''] 1 1 [''fn f() {''] []
       = Inr (2, [''fn f() {'', ''}}''], ''}}'' @ [CHR 0x0A])
   \<and> brace_depth [''fn f() {'', ''}}'', ''{'', ''x''] 0 1 = - 1
   \<and> brace_depth [''fn f() {'', ''}}'', ''{'', ''x''] 0 2 = 0"
  by code_simp

text \<open>
  C7, as the code has it. At a matched signature line \<open>i\<close> the outer loop appends the
  lines of the span after the signature line as they are and carries on at the line \<open>j\<close>
  after the span: no line inside the span is matched against \<open>fn_pattern\<close>. The marker
  test reads all the lines \<open>i + 1\<close> to \<open>j - 1\<close>, those of nested functions too: the
  signature line is edited when one of them has the marker and the line has no
  \<^verbatim>\<open>async fn\<close>, and is emitted unchanged otherwise.
\<close>

theorem span_consumed_wholesale:
  assumes "i < length lines" and "re_match fn_pattern (lines ! i)"
  shows "\<exists>j fn_lines fn_body sig rest.
           scan_span lines (Suc i) 1 [lines ! i] [] = Inr (j, fn_lines, fn_body)
         \<and> i < j \<and> j \<le> length lines
         \<and> main_loop lines i result
              = main_loop lines j (result @ sig # take (j - Suc i) (drop (Suc i) lines))
         \<and> main_loop lines i result
              = Inr (result @ sig # take (j - Suc i) (drop (Suc i) lines) @ rest)
         \<and> (py_in ''.await'' fn_body \<longleftrightarrow> (\<exists>k. i < k \<and> k < j \<and> py_in ''.await'' (lines ! k)))
         \<and> sig = (if py_in ''.await'' fn_body \<and> \<not> py_in ''async fn'' (lines ! i)
                  then py_replace1 ''fn '' ''async fn '' (lines ! i) else lines ! i)"
proof -
  let ?ls = "drop (Suc i) lines"
  define n where "n = span_len 1 ?ls"
  define j where "j = Suc i + n"
  define sig where "sig = async_line (lines ! i) (take n ?ls)"
  have jn: "j - Suc i = n" "i < j" by (simp_all add: j_def)
  from span_len_le[of 1 ?ls] assms(1) have jl: "j \<le> length lines"
    by (simp add: j_def n_def)
  have sp: "scan_span lines (Suc i) 1 [lines ! i] [] =
      Inr (j, take (Suc n) (drop i lines), body_text (take n ?ls))"
    using fn_span_eq[OF assms(1)] by (simp add: j_def n_def)
  have ml: "main_loop lines i result = main_loop lines j (result @ sig # take n ?ls)"
    using main_loop_match[OF assms, of result] by (simp add: j_def n_def sig_def)
  from main_loop_keeps_result[of lines j "result @ sig # take n ?ls"] obtain rest where
    r: "main_loop lines j (result @ sig # take n ?ls) = Inr (result @ sig # take n ?ls @ rest)"
    by auto
  have aw: "py_in ''.await'' (body_text (take n ?ls))
      \<longleftrightarrow> (\<exists>k. i < k \<and> k < j \<and> py_in ''.await'' (lines ! k))"
  proof -
    have len: "length (take n ?ls) = n"
      using span_len_le[of 1 ?ls] by (simp add: n_def)
    have nth: "take n ?ls ! m = lines ! (Suc i + m)" if "m < n" for m
      using that jl by (simp add: j_def)
    have "(\<exists>l\<in>set (take n ?ls). py_in ''.await'' l) \<longleftrightarrow> (\<exists>m<n. py_in ''.await'' (lines ! (Suc i + m)))"
    proof
      assume "\<exists>l\<in>set (take n ?ls). py_in ''.await'' l"
      then obtain m where "m < length (take n ?ls)" "py_in ''.await'' (take n ?ls ! m)"
        by (metis in_set_conv_nth)
      with len nth[of m] show "\<exists>m<n. py_in ''.await'' (lines ! (Suc i + m))"
        by (intro exI[of _ m]) simp
    next
      assume "\<exists>m<n. py_in ''.await'' (lines ! (Suc i + m))"
      then obtain m where m: "m < n" "py_in ''.await'' (lines ! (Suc i + m))" by blast
      with len have "take n ?ls ! m \<in> set (take n ?ls)"
        by (intro nth_mem) simp
      with m nth[of m] show "\<exists>l\<in>set (take n ?ls). py_in ''.await'' l"
        by (intro bexI[of _ "take n ?ls ! m"]) simp_all
    qed
    also have "\<dots> \<longleftrightarrow> (\<exists>k. i < k \<and> k < j \<and> py_in ''.await'' (lines ! k))"
    proof
      assume "\<exists>m<n. py_in ''.await'' (lines ! (Suc i + m))"
      then obtain m where "m < n" "py_in ''.await'' (lines ! (Suc i + m))" by blast
      then have "i < Suc i + m \<and> Suc i + m < j \<and> py_in ''.await'' (lines ! (Suc i + m))"
        by (simp add: j_def)
      then show "\<exists>k. i < k \<and> k < j \<and> py_in ''.await'' (lines ! k)" by blast
    next
      assume "\<exists>k. i < k \<and> k < j \<and> py_in ''.await'' (lines ! k)"
      then obtain k where k: "i < k" "k < j" "py_in ''.await'' (lines ! k)" by blast
      then have "k - Suc i < n" "Suc i + (k - Suc i) = k" by (simp_all add: j_def)
      with k(3) show "\<exists>m<n. py_in ''.await'' (lines ! (Suc i + m))" by metis
    qed
    finally show ?thesis by (simp add: await_in_body)
  qed
  have "sig = (if py_in ''.await'' (body_text (take n ?ls)) \<and> \<not> py_in ''async fn'' (lines ! i)
                  then py_replace1 ''fn '' ''async fn '' (lines ! i) else lines ! i)"
    by (simp add: sig_def async_line_def)
  with sp jn jl ml r aw show ?thesis
    by (intro exI[of _ j] exI[of _ "take (Suc n) (drop i lines)"]
              exI[of _ "body_text (take n ?ls)"] exI[of _ sig] exI[of _ rest]) simp
qed

theorem span_consumed_wholesale_witness:
  "re_match fn_pattern ''    fn inner() {''
   \<and> main_loop [''fn outer() {'', ''    fn inner() {'', ''        x.await;'', ''    }'', ''}''] 0 []
       = main_loop [''fn outer() {'', ''    fn inner() {'', ''        x.await;'', ''    }'', ''}''] 5
           [''async fn outer() {'', ''    fn inner() {'', ''        x.await;'', ''    }'', ''}'']"
proof -
  let ?ls = "[''fn outer() {'', ''    fn inner() {'', ''        x.await;'', ''    }'', ''}'']"
  have a: "0 < length ?ls" by simp
  have b: "re_match fn_pattern (?ls ! 0)" by code_simp
  have c: "scan_span ?ls (Suc 0) 1 [?ls ! 0] [] =
    Inr (5, ?ls, ''    fn inner() {'' @ [CHR 0x0A] @ ''        x.await;'' @ [CHR 0x0A] @ ''    }'' @ [CHR 0x0A] @ ''}'' @ [CHR 0x0A])"
    by code_simp
  have d: "py_in ''.await'' (''    fn inner() {'' @ [CHR 0x0A] @ ''        x.await;'' @ [CHR 0x0A] @ ''    }'' @ [CHR 0x0A] @ ''}'' @ [CHR 0x0A])"
    "\<not> py_in ''async fn'' (?ls ! 0)"
    "py_replace1 ''fn '' ''async fn '' (?ls ! 0) = ''async fn outer() {''"
    by code_simp+
  have e: "re_match fn_pattern ''    fn inner() {''" by code_simp
  from span_consumed_wholesale[OF a b, of "[]"] obtain j fn_lines fn_body sig where
    g: "scan_span ?ls (Suc 0) 1 [?ls ! 0] [] = Inr (j, fn_lines, fn_body)"
       "main_loop ?ls 0 [] = main_loop ?ls j ([] @ sig # take (j - Suc 0) (drop (Suc 0) ?ls))"
       "sig = (if py_in ''.await'' fn_body \<and> \<not> py_in ''async fn'' (?ls ! 0)
                  then py_replace1 ''fn '' ''async fn '' (?ls ! 0) else ?ls ! 0)"
    by blast
  from g(1) c have j: "j = 5"
    and "fn_body = ''    fn inner() {'' @ [CHR 0x0A] @ ''        x.await;'' @ [CHR 0x0A] @ ''    }'' @ [CHR 0x0A] @ ''}'' @ [CHR 0x0A]"
    by simp_all
  with g(3) d have "sig = ''async fn outer() {''" by (simp only: if_True simp_thms)
  with g(2) j have "main_loop ?ls 0 [] = main_loop ?ls 5
      [''async fn outer() {'', ''    fn inner() {'', ''        x.await;'', ''    }'', ''}'']"
    by simp
  with e show ?thesis by (simp only: simp_thms)
qed

text \<open>
  C7 as stated fails: a function with no marker in its own statements and a nested
  function that has one is rewritten, and the nested function is not.
\<close>

theorem nested_marker_rewrites_outer:
  "fix_async_functions
     (py_join [''fn outer() {'', ''    fn inner() {'', ''        x.await;'', ''    }'', ''    y();'', ''}''])
     = Inr (py_join [''async fn outer() {'', ''    fn inner() {'', ''        x.await;'', ''    }'', ''    y();'', ''}''])
   \<and> \<not> py_in ''.await'' ''    y();''
   \<and> \<not> py_in ''.await'' ''}''"
  by code_simp




text \<open>
  C10. The rewriter returns a text for every input. When the counter of the span that
  starts at line \<open>i\<close> stays positive to the last line, the span is all the remaining
  lines, the marker test and the edit apply to it as to any span, and the run ends
  without an error.
\<close>

theorem unterminated_span_no_error:
  "(\<exists>out. fix_async_functions content = Inr out)
   \<and> (i < length lines \<and> re_match fn_pattern (lines ! i)
        \<and> (\<forall>k. i \<le> k \<and> k < length lines \<longrightarrow> 0 < brace_depth lines i k) \<longrightarrow>
        scan_span lines (Suc i) 1 [lines ! i] []
          = Inr (length lines, drop i lines, body_text (drop (Suc i) lines))
        \<and> main_loop lines i result
          = Inr (result @
                 (if py_in ''.await'' (body_text (drop (Suc i) lines)) \<and> \<not> py_in ''async fn'' (lines ! i)
                  then py_replace1 ''fn '' ''async fn '' (lines ! i) else lines ! i)
                 # drop (Suc i) lines))"
proof (intro conjI impI)
  show "\<exists>out. fix_async_functions content = Inr out"
    using fix_async_functions_lines[of content] by blast
next
  assume h: "i < length lines \<and> re_match fn_pattern (lines ! i)
        \<and> (\<forall>k. i \<le> k \<and> k < length lines \<longrightarrow> 0 < brace_depth lines i k)"
  then have n: "Suc i + span_len 1 (drop (Suc i) lines) = length lines"
    using span_len_unterminated by blast
  then have n': "span_len 1 (drop (Suc i) lines) = length lines - Suc i" by simp
  from h fn_span_eq[of i lines] n show "scan_span lines (Suc i) 1 [lines ! i] []
          = Inr (length lines, drop i lines, body_text (drop (Suc i) lines))"
    by (simp add: n')
  from h main_loop_match[of i lines result] n show "main_loop lines i result
          = Inr (result @
                 (if py_in ''.await'' (body_text (drop (Suc i) lines)) \<and> \<not> py_in ''async fn'' (lines ! i)
                  then py_replace1 ''fn '' ''async fn '' (lines ! i) else lines ! i)
                 # drop (Suc i) lines)"
    by (simp add: n' main_loop_end async_line_def)
qed

theorem unterminated_span_no_error_witness:
  "(\<exists>out. fix_async_functions (py_join [''fn f() {'', ''    if a {'', ''    x.await;'', ''}'']) = Inr out)
   \<and> scan_span [''fn f() {'', ''    if a {'', ''    x.await;'', ''}''] (Suc 0) 1 [''fn f() {''] []
       = Inr (4, [''fn f() {'', ''    if a {'', ''    x.await;'', ''}''],
              body_text [''    if a {'', ''    x.await;'', ''}''])
   \<and> main_loop [''fn f() {'', ''    if a {'', ''    x.await;'', ''}''] 0 []
       = Inr [''async fn f() {'', ''    if a {'', ''    x.await;'', ''}'']"
proof -
  let ?ls = "[''fn f() {'', ''    if a {'', ''    x.await;'', ''}'']"
  have a: "0 < length ?ls" by simp
  have b: "re_match fn_pattern (?ls ! 0)" by code_simp
  have c: "\<forall>k. 0 \<le> k \<and> k < length ?ls \<longrightarrow> 0 < brace_depth ?ls 0 k"
  proof (intro allI impI)
    fix k assume "0 \<le> k \<and> k < length ?ls"
    then have "k = 0 \<or> k = 1 \<or> k = 2 \<or> k = 3" by auto
    moreover have "0 < brace_depth ?ls 0 0" "0 < brace_depth ?ls 0 1"
      "0 < brace_depth ?ls 0 2" "0 < brace_depth ?ls 0 3" by code_simp+
    ultimately show "0 < brace_depth ?ls 0 k" by auto
  qed
  have d: "py_in ''.await'' (body_text (drop (Suc 0) ?ls))" "\<not> py_in ''async fn'' (?ls ! 0)"
    "py_replace1 ''fn '' ''async fn '' (?ls ! 0) = ''async fn f() {''"
    by code_simp+
  from unterminated_span_no_error[of "py_join ?ls" 0 ?ls "[]"] a b c d show ?thesis
    by simp
qed

text \<open>
  C9. A line that starts, after its indentation, with \<^verbatim>\<open>async fn\<close> or \<^verbatim>\<open>pub async fn\<close>
  does not match \<open>fn_pattern\<close>, so the outer loop copies it and goes on to the next
  line. A signature inside the body of such a function is therefore matched on its own
  and can be rewritten, while the same signature inside the span of a function that is
  not yet async is left as it is.
\<close>

theorem async_signature_not_matched:
  "((\<forall>c\<in>set ws. is_space c) \<and> (l = ws @ ''async fn'' @ rest \<or> l = ws @ ''pub async fn'' @ rest) \<longrightarrow>
      \<not> re_match fn_pattern l
      \<and> (i < length lines \<and> lines ! i = l \<longrightarrow>
           main_loop lines i result = main_loop lines (Suc i) (result @ [l])))
   \<and> fix_async_functions
        (py_join [''async fn outer() {'', ''    fn inner() {'', ''        x.await;'', ''    }'', ''}''])
       = Inr (py_join [''async fn outer() {'', ''    async fn inner() {'', ''        x.await;'', ''    }'', ''}''])
   \<and> fix_async_functions
        (py_join [''fn outer() {'', ''    fn inner() {'', ''        x.await;'', ''    }'', ''}''])
       = Inr (py_join [''async fn outer() {'', ''    fn inner() {'', ''        x.await;'', ''    }'', ''}''])"
proof (intro conjI impI)
  assume h: "(\<forall>c\<in>set ws. is_space c) \<and> (l = ws @ ''async fn'' @ rest \<or> l = ws @ ''pub async fn'' @ rest)"
  then show n: "\<not> re_match fn_pattern l"
    using async_not_matched pub_async_not_matched by blast
  assume "i < length lines \<and> lines ! i = l"
  with n show "main_loop lines i result = main_loop lines (Suc i) (result @ [l])"
    using main_loop_nomatch[of i lines result] by simp
next
  show "fix_async_functions
        (py_join [''async fn outer() {'', ''    fn inner() {'', ''        x.await;'', ''    }'', ''}''])
       = Inr (py_join [''async fn outer() {'', ''    async fn inner() {'', ''        x.await;'', ''    }'', ''}''])"
    by code_simp
next
  show "fix_async_functions
        (py_join [''fn outer() {'', ''    fn inner() {'', ''        x.await;'', ''    }'', ''}''])
       = Inr (py_join [''async fn outer() {'', ''    fn inner() {'', ''        x.await;'', ''    }'', ''}''])"
    by code_simp
qed

theorem async_signature_not_matched_witness:
  "\<not> re_match fn_pattern ''    pub async fn f() {''
   \<and> main_loop [''    pub async fn f() {'', ''}''] 0 []
       = main_loop [''    pub async fn f() {'', ''}''] (Suc 0) [''    pub async fn f() {'']"
proof -
  have a: "\<forall>c\<in>set ''    ''. is_space c" by (simp add: is_space_def)
  have b: "''    pub async fn f() {'' = ''    '' @ ''pub async fn'' @ '' f() {''" by simp
  have c: "0 < length [''    pub async fn f() {'', ''}'']"
    "[''    pub async fn f() {'', ''}''] ! 0 = ''    pub async fn f() {''" by simp_all
  note th = async_signature_not_matched[of "''    ''" "''    pub async fn f() {''" "'' f() {''" 0
      "[''    pub async fn f() {'', ''}'']" "[]", THEN conjunct1, rule_format]
  from a b have h: "(\<forall>c\<in>set ''    ''. is_space c)
      \<and> (''    pub async fn f() {'' = ''    '' @ ''async fn'' @ '' f() {''
         \<or> ''    pub async fn f() {'' = ''    '' @ ''pub async fn'' @ '' f() {'')"
    by blast
  from th[OF h] have "\<not> re_match fn_pattern ''    pub async fn f() {''"
    and "0 < length [''    pub async fn f() {'', ''}'']
         \<and> [''    pub async fn f() {'', ''}''] ! 0 = ''    pub async fn f() {'' \<longrightarrow>
         main_loop [''    pub async fn f() {'', ''}''] 0 []
          = main_loop [''    pub async fn f() {'', ''}''] (Suc 0) ([] @ [''    pub async fn f() {''])"
    by blast+
  with c show ?thesis by (simp only: append_Nil simp_thms)
qed

text \<open>
  C2, as the code has it. On a text with no signature line inside the span of another
  one, a second run returns the output of the first. On every text, a line that
  contains \<^verbatim>\<open>async fn\<close> is never edited and a line that the rewriter edits contains
  \<^verbatim>\<open>async fn\<close> afterwards, so that a second run leaves every line edited by the first
  as it is: no line receives a second qualifier.
\<close>

theorem idempotent_without_nested_signature:
  "\<exists>out1 out2. fix_async_functions content = Inr out1 \<and> fix_async_functions out1 = Inr out2
     \<and> (no_nested_signature (py_split content) 0 \<longrightarrow> out2 = out1)
     \<and> length (py_split out1) = length (py_split content)
     \<and> length (py_split out2) = length (py_split content)
     \<and> (\<forall>k<length (py_split content).
          (py_in ''async fn'' (py_split content ! k) \<longrightarrow> py_split out1 ! k = py_split content ! k)
          \<and> (py_split out1 ! k \<noteq> py_split content ! k \<longrightarrow>
               py_in ''async fn'' (py_split out1 ! k) \<and> py_split out2 ! k = py_split out1 ! k))"
proof -
  from main_loop_rel[of "py_split content" 0 "[]"] obtain ls1 where
    m1: "main_loop (py_split content) 0 [] = Inr ([] @ ls1)"
    and r1: "list_all2 edit_rel (py_split content) ls1" by auto
  from m1 have m1': "main_loop (py_split content) 0 [] = Inr ls1" by simp
  from m1' main_loop_split_join(1)[OF m1'] have
    l1: "fix_async_functions content = Inr (py_join ls1)" "py_split (py_join ls1) = ls1"
    by (simp_all add: fix_async_functions_def)
  from fix_async_functions_lines[of "py_join ls1"] l1(2) obtain ls2 where
    l2: "fix_async_functions (py_join ls1) = Inr (py_join ls2)" "py_split (py_join ls2) = ls2"
        "list_all2 edit_rel ls1 ls2" by auto
  from r1 l2(3) have len: "length ls1 = length (py_split content)" "length ls2 = length (py_split content)"
    by (auto simp: list_all2_conv_all_nth)
  have idem: "py_join ls2 = py_join ls1" if nn: "no_nested_signature (py_split content) 0"
  proof -
    from second_run_fixed[OF m1 nn len(1), of "[]"] have "main_loop ls1 0 [] = Inr ls1" by simp
    with l1(2) have "fix_async_functions (py_join ls1) = Inr (py_join ls1)"
      by (simp add: fix_async_functions_def)
    with l2(1) show ?thesis by simp
  qed
  have "(py_in ''async fn'' (py_split content ! k) \<longrightarrow> ls1 ! k = py_split content ! k)
      \<and> (ls1 ! k \<noteq> py_split content ! k \<longrightarrow> py_in ''async fn'' (ls1 ! k) \<and> ls2 ! k = ls1 ! k)"
    if "k < length (py_split content)" for k
  proof -
    from that r1 l2(3) len have e: "edit_rel (py_split content ! k) (ls1 ! k)" "edit_rel (ls1 ! k) (ls2 ! k)"
      by (simp_all add: list_all2_conv_all_nth)
    from e(1) have "py_in ''async fn'' (py_split content ! k) \<longrightarrow> ls1 ! k = py_split content ! k"
      by (auto simp: edit_rel_def)
    moreover have "py_in ''async fn'' (ls1 ! k) \<and> ls2 ! k = ls1 ! k" if "ls1 ! k \<noteq> py_split content ! k"
    proof -
      from that e(1) have "py_in ''async fn'' (ls1 ! k)"
        using py_replace1_async[of "py_split content ! k"] by (auto simp: edit_rel_def)
      with e(2) show ?thesis by (auto simp: edit_rel_def)
    qed
    ultimately show ?thesis by blast
  qed
  with l1 l2 len idem show ?thesis
    by (intro exI[of _ "py_join ls1"] exI[of _ "py_join ls2"]) simp
qed

theorem idempotent_without_nested_signature_witness:
  "no_nested_signature [''fn f() {'', ''    x.await;'', ''}'', ''fn g() {'', ''}''] 0
   \<and> fix_async_functions (py_join [''fn f() {'', ''    x.await;'', ''}'', ''fn g() {'', ''}''])
     = Inr (py_join [''async fn f() {'', ''    x.await;'', ''}'', ''fn g() {'', ''}''])
   \<and> fix_async_functions (py_join [''async fn f() {'', ''    x.await;'', ''}'', ''fn g() {'', ''}''])
     = Inr (py_join [''async fn f() {'', ''    x.await;'', ''}'', ''fn g() {'', ''}''])
   \<and> py_in ''async fn'' ''async fn f() {''"
proof -
  let ?c = "py_join [''fn f() {'', ''    x.await;'', ''}'', ''fn g() {'', ''}'']"
  let ?d = "py_join [''async fn f() {'', ''    x.await;'', ''}'', ''fn g() {'', ''}'']"
  have e: "fix_async_functions ?c = Inr ?d"
    by code_simp
  have s: "py_split ?c = [''fn f() {'', ''    x.await;'', ''}'', ''fn g() {'', ''}'']"
    "py_split ?d = [''async fn f() {'', ''    x.await;'', ''}'', ''fn g() {'', ''}'']"
    by code_simp+
  have n: "no_nested_signature [''fn f() {'', ''    x.await;'', ''}'', ''fn g() {'', ''}''] 0"
    by code_simp
  from idempotent_without_nested_signature[of ?c] e obtain out2 where
    o: "fix_async_functions ?d = Inr out2"
       "no_nested_signature (py_split ?c) 0 \<longrightarrow> out2 = ?d"
       "\<forall>k<length (py_split ?c). py_split ?d ! k \<noteq> py_split ?c ! k \<longrightarrow>
           py_in ''async fn'' (py_split ?d ! k)"
    by auto
  from o(2) n s(1) have "out2 = ?d" by (simp only:)
  moreover from o(3) have "py_split ?d ! 0 \<noteq> py_split ?c ! 0 \<longrightarrow> py_in ''async fn'' (py_split ?d ! 0)"
    by (simp only: s) simp
  then have "py_in ''async fn'' ''async fn f() {''" by simp
  ultimately show ?thesis using e n o(1) by (simp only:)
qed

text \<open>
  C2 as stated fails: the first run makes the outer function async, its signature line
  no longer matches, and the second run reaches the nested signature and rewrites it.
\<close>

theorem second_run_rewrites_nested:
  "fix_async_functions
     (py_join [''fn outer() {'', ''    fn inner() {'', ''        x.await;'', ''    }'', ''}''])
     = Inr (py_join [''async fn outer() {'', ''    fn inner() {'', ''        x.await;'', ''    }'', ''}''])
   \<and> fix_async_functions
     (py_join [''async fn outer() {'', ''    fn inner() {'', ''        x.await;'', ''    }'', ''}''])
     = Inr (py_join [''async fn outer() {'', ''    async fn inner() {'', ''        x.await;'', ''    }'', ''}''])
   \<and> py_join [''async fn outer() {'', ''    async fn inner() {'', ''        x.await;'', ''    }'', ''}'']
     \<noteq> py_join [''async fn outer() {'', ''    fn inner() {'', ''        x.await;'', ''    }'', ''}'']"
  by code_simp

text \<open>
  C1 at a signature with a tab after \<^verbatim>\<open>fn\<close>: the line matches, the body of the span
  contains the marker and the line has no \<^verbatim>\<open>async fn\<close>, and the output is the input.
\<close>

theorem tab_after_fn_not_rewritten:
  "re_match fn_pattern (''fn'' @ [CHR 0x09] @ ''f() {'')
   \<and> py_in ''.await'' (''    x.await;'' @ [CHR 0x0A] @ ''}'' @ [CHR 0x0A])
   \<and> \<not> py_in ''async fn'' (''fn'' @ [CHR 0x09] @ ''f() {'')
   \<and> fix_async_functions (py_join [''fn'' @ [CHR 0x09] @ ''f() {'', ''    x.await;'', ''}''])
      = Inr (py_join [''fn'' @ [CHR 0x09] @ ''f() {'', ''    x.await;'', ''}''])"
  by code_simp

text \<open>
  C5 at a signature with a tab after \<^verbatim>\<open>fn\<close> and a function pointer parameter: the
  qualifier goes in front of the \<^verbatim>\<open>fn\<close> of the parameter's type.
\<close>

theorem tab_after_fn_qualifier_in_parameters:
  "re_match fn_pattern (''fn'' @ [CHR 0x09] @ ''f(g: fn (i32) -> i32) {'')
   \<and> fix_async_functions
        (py_join [''fn'' @ [CHR 0x09] @ ''f(g: fn (i32) -> i32) {'', ''    g(1).await;'', ''}''])
      = Inr (py_join [''fn'' @ [CHR 0x09] @ ''f(g: async fn (i32) -> i32) {'', ''    g(1).await;'', ''}''])"
  by code_simp

end
